theory Spec2Isabelle
  imports Main "HOL-Library.Word"
begin

unbundle bit_operations_syntax

section \<open>Rotary encoder driver: data model\<close>

text \<open>
  The embedding follows \<^verbatim>\<open>rotary_encoder.h\<close> and \<^verbatim>\<open>rotary_encoder.c\<close>.
  Fixed-width C integers are words: \<^verbatim>\<open>uint16_t\<close> pin masks, \<^verbatim>\<open>int16_t\<close> counters
  (read as two's complement by \<open>sint\<close>, compared by \<open><s\<close>), \<^verbatim>\<open>uint8_t\<close> phase
  states and \<^verbatim>\<open>int8_t\<close> table entries.
\<close>

type_synonym uint8_t = "8 word"
type_synonym int8_t = "8 word"
type_synonym uint16_t = "16 word"
type_synonym int16_t = "16 word"

text \<open>
  A \<^verbatim>\<open>GPIO_TypeDef *\<close> is only ever handed to the pin read, so a port is its address.
\<close>

type_synonym GPIO_port = nat

text \<open>The handle struct of \<^verbatim>\<open>rotary_encoder.h\<close>, field by field.\<close>

record rot_enc_handle_t =
  pin_a :: uint16_t
  pin_b :: uint16_t
  button_pin :: uint16_t
  port_a :: GPIO_port
  port_b :: GPIO_port
  counter :: int16_t
  reset_value :: int16_t
  counter_max :: int16_t
  counter_min :: int16_t
  old_state :: uint8_t
  new_state :: uint8_t

text \<open>
  A \<^verbatim>\<open>rot_enc_handle_t *\<close> is \<open>None\<close> for \<^verbatim>\<open>NULL\<close> and \<open>Some a\<close> for the address
  \<open>a\<close> of a caller-owned handle. The store maps every address to the handle held there,
  so two slots holding the same address alias the same handle.
\<close>

type_synonym handle_ptr = "nat option"

record driver_state =
  registered_handles :: "handle_ptr list"
  heap :: "nat \<Rightarrow> rot_enc_handle_t"

definition MAX_NUM_OF_ENCODERS :: nat where
  "MAX_NUM_OF_ENCODERS = 5"

text \<open>
  \<^verbatim>\<open>static rot_enc_handle_t *registered_handles[MAX_NUM_OF_ENCODERS] = {NULL};\<close>
\<close>

definition initial_registry :: "handle_ptr list" where
  "initial_registry = replicate MAX_NUM_OF_ENCODERS None"

definition rot_enc_lookup_table :: "int8_t list" where
  "rot_enc_lookup_table = [0, -1, 1, 0, 1, 0, 0, -1, -1, 0, 0, 1, 0, 1, -1, 0]"

text \<open>
  What the C leaves undefined is a value of the model: reading a field through a
  \<^verbatim>\<open>NULL\<close> handle pointer, and indexing the 16-entry table past its end.
\<close>

datatype fault = NullPointerDereference | TableIndexOutOfBounds

subsection \<open>The vendor pin read\<close>

text \<open>
  Modelled from the spec: \<^verbatim>\<open>HAL_GPIO_ReadPin\<close> belongs to the vendor HAL and is not part
  of the repository. The spec gives it as \<^verbatim>\<open>read_digital_level(port, pin) \<rightarrow> {0,1}\<close>;
  the levels present at the moment of an interrupt are a parameter of the decoder.
\<close>

datatype GPIO_PinState = GPIO_PIN_RESET | GPIO_PIN_SET

type_synonym pin_levels = "GPIO_port \<Rightarrow> uint16_t \<Rightarrow> GPIO_PinState"

fun pin_state_value :: "GPIO_PinState \<Rightarrow> uint8_t" where
  "pin_state_value GPIO_PIN_RESET = 0"
| "pin_state_value GPIO_PIN_SET = 1"

definition HAL_GPIO_ReadPin :: "pin_levels \<Rightarrow> GPIO_port \<Rightarrow> uint16_t \<Rightarrow> uint8_t" where
  "HAL_GPIO_ReadPin levels port pin = pin_state_value (levels port pin)"

section \<open>Registration\<close>

text \<open>
  \<^verbatim>\<open>init_rotary_encoder\<close>: the loop over the slots, from \<open>index\<close> upwards. The result
  is the registry and \<^verbatim>\<open>registration_success\<close>.
\<close>

function init_loop :: "handle_ptr list \<Rightarrow> handle_ptr \<Rightarrow> nat \<Rightarrow> handle_ptr list \<times> bool" where
  "init_loop regs handle index =
     (if index < MAX_NUM_OF_ENCODERS then
        (if regs ! index = None then (regs[index := handle], True)
         else init_loop regs handle (Suc index))
      else (regs, False))"
  by pat_completeness auto
termination
  by (relation "measure (\<lambda>(regs, handle, index). MAX_NUM_OF_ENCODERS - index)") auto

definition init_rotary_encoder :: "driver_state \<Rightarrow> handle_ptr \<Rightarrow> driver_state \<times> bool" where
  "init_rotary_encoder st handle =
     (case init_loop (registered_handles st) handle 0 of
        (regs, registration_success) \<Rightarrow>
          (st\<lparr>registered_handles := regs\<rparr>, registration_success))"

section \<open>Resolving the encoder that triggered\<close>

text \<open>
  \<^verbatim>\<open>determine_trigger\<close>: every slot visited is dereferenced to read its three pins,
  whatever it holds; a slot that is still \<^verbatim>\<open>NULL\<close> is a null dereference. Falling out
  of the loop returns the initial \<^verbatim>\<open>NULL\<close>.
\<close>

function determine_trigger_loop ::
  "driver_state \<Rightarrow> uint16_t \<Rightarrow> nat \<Rightarrow> fault + handle_ptr" where
  "determine_trigger_loop st GPIO_Pin index =
     (if index < MAX_NUM_OF_ENCODERS then
        (case registered_handles st ! index of
           None \<Rightarrow> Inl NullPointerDereference
         | Some a \<Rightarrow>
             if pin_a (heap st a) = GPIO_Pin \<or>
                pin_b (heap st a) = GPIO_Pin \<or>
                button_pin (heap st a) = GPIO_Pin
             then Inr (Some a)
             else determine_trigger_loop st GPIO_Pin (Suc index))
      else Inr None)"
  by pat_completeness auto
termination
  by (relation "measure (\<lambda>(st, GPIO_Pin, index). MAX_NUM_OF_ENCODERS - index)") auto

definition determine_trigger :: "driver_state \<Rightarrow> uint16_t \<Rightarrow> fault + handle_ptr" where
  "determine_trigger st GPIO_Pin = determine_trigger_loop st GPIO_Pin 0"

section \<open>The quadrature step\<close>

definition get_state :: "pin_levels \<Rightarrow> rot_enc_handle_t \<Rightarrow> uint8_t" where
  "get_state levels h =
     push_bit 1 (HAL_GPIO_ReadPin levels (port_a h) (pin_a h))
       OR HAL_GPIO_ReadPin levels (port_b h) (pin_b h)"

text \<open>
  The nibble \<^verbatim>\<open>(old_state << 2) | new_state\<close>, truncated to \<^verbatim>\<open>uint8_t\<close>, and the
  table read at it.
\<close>

definition transition_code :: "uint8_t \<Rightarrow> uint8_t \<Rightarrow> uint8_t" where
  "transition_code old new = push_bit 2 old OR new"

definition lookup_transition :: "uint8_t \<Rightarrow> uint8_t \<Rightarrow> fault + int8_t" where
  "lookup_transition old new =
     (let transition = transition_code old new
      in if unat transition < length rot_enc_lookup_table
         then Inr (rot_enc_lookup_table ! unat transition)
         else Inl TableIndexOutOfBounds)"

text \<open>
  The two guarded \<^verbatim>\<open>counter += lookup_value\<close> updates. The sum is formed in \<^verbatim>\<open>int\<close>
  from the sign-extended operands and stored back into the \<^verbatim>\<open>int16_t\<close> field.
\<close>

definition edit_counter :: "rot_enc_handle_t \<Rightarrow> int8_t \<Rightarrow> rot_enc_handle_t" where
  "edit_counter h lookup_value =
     (if lookup_value <s 0 then
        (if counter_min h <s counter h
         then h\<lparr>counter := counter h + scast lookup_value\<rparr> else h)
      else if 0 <s lookup_value then
        (if counter h <s counter_max h
         then h\<lparr>counter := counter h + scast lookup_value\<rparr> else h)
      else h)"

definition decode_phase_transition ::
  "pin_levels \<Rightarrow> rot_enc_handle_t \<Rightarrow> fault + rot_enc_handle_t" where
  "decode_phase_transition levels handle =
     (let h = handle\<lparr>new_state := get_state levels handle\<rparr>
      in case lookup_transition (old_state h) (new_state h) of
           Inl f \<Rightarrow> Inl f
         | Inr lookup_value \<Rightarrow>
             (let h' = edit_counter h lookup_value
              in Inr (h'\<lparr>old_state := new_state h'\<rparr>)))"

section \<open>The interrupt callback\<close>

definition rot_enc_callback ::
  "pin_levels \<Rightarrow> driver_state \<Rightarrow> uint16_t \<Rightarrow> fault + driver_state" where
  "rot_enc_callback levels st GPIO_Pin =
     (case determine_trigger st GPIO_Pin of
        Inl f \<Rightarrow> Inl f
      | Inr None \<Rightarrow> Inl NullPointerDereference
      | Inr (Some a) \<Rightarrow>
          if button_pin (heap st a) = GPIO_Pin
          then Inr (st\<lparr>heap := (heap st)(a := (heap st a)\<lparr>counter := reset_value (heap st a)\<rparr>)\<rparr>)
          else (case decode_phase_transition levels (heap st a) of
                  Inl f \<Rightarrow> Inl f
                | Inr h' \<Rightarrow> Inr (st\<lparr>heap := (heap st)(a := h')\<rparr>)))"

definition rot_enc_get_count_value :: "driver_state \<Rightarrow> nat \<Rightarrow> int16_t" where
  "rot_enc_get_count_value st a = counter (heap st a)"

text \<open>
  The interrupt controller calls the callback once per edge; an event is the pin that
  fired together with the pin levels read while it is served. A fault ends the run.
\<close>

type_synonym event = "pin_levels \<times> uint16_t"

fun deliver_events :: "driver_state \<Rightarrow> event list \<Rightarrow> fault + driver_state" where
  "deliver_events st [] = Inr st"
| "deliver_events st ((levels, GPIO_Pin) # es) =
     (case rot_enc_callback levels st GPIO_Pin of
        Inl f \<Rightarrow> Inl f
      | Inr st' \<Rightarrow> deliver_events st' es)"

section \<open>Properties named by the specification\<close>

text \<open>
  The counter bound of the data model, \<^verbatim>\<open>counter_min \<le> counter \<le> counter_max\<close>, and the
  same bound for the reset value, both read as signed 16-bit numbers.
\<close>

definition within_limits :: "rot_enc_handle_t \<Rightarrow> bool" where
  "within_limits h \<longleftrightarrow> counter_min h \<le>s counter h \<and> counter h \<le>s counter_max h"

definition reset_within_limits :: "rot_enc_handle_t \<Rightarrow> bool" where
  "reset_within_limits h \<longleftrightarrow>
     counter_min h \<le>s reset_value h \<and> reset_value h \<le>s counter_max h"

text \<open>
  The transition table as the specification prints it (index \<^verbatim>\<open>prev*4+new\<close>), and its
  three classes of codes; the table of the source is compared with both.
\<close>

definition spec_transition_table :: "int list" where
  "spec_transition_table = [0, -1, 1, 0, 1, 0, 0, -1, -1, 0, 0, 1, 0, 1, -1, 0]"

definition spec_step_of_code :: "nat \<Rightarrow> int" where
  "spec_step_of_code code =
     (if code \<in> {1, 7, 8, 14} then -1
      else if code \<in> {2, 4, 11, 13} then 1
      else 0)"

text \<open>
  A pin matches a handle when it is one of its three pins: the test of
  \<^verbatim>\<open>determine_trigger\<close>, used to say that no registered handle matches.
\<close>

definition pin_matches :: "rot_enc_handle_t \<Rightarrow> uint16_t \<Rightarrow> bool" where
  "pin_matches h GPIO_Pin \<longleftrightarrow>
     pin_a h = GPIO_Pin \<or> pin_b h = GPIO_Pin \<or> button_pin h = GPIO_Pin"

text \<open>
  The fields the integrator sets and the driver never writes: the wiring, the reset value
  and the two limits.
\<close>

definition configuration ::
  "rot_enc_handle_t \<Rightarrow>
     uint16_t \<times> uint16_t \<times> uint16_t \<times> GPIO_port \<times> GPIO_port \<times> int16_t \<times> int16_t \<times> int16_t" where
  "configuration h =
     (pin_a h, pin_b h, button_pin h, port_a h, port_b h,
      reset_value h, counter_max h, counter_min h)"

subsection \<open>Concrete configurations\<close>

text \<open>
  Encoder number \<open>k\<close> is wired to pins \<open>3k\<close>, \<open>3k+1\<close> and \<open>3k+2\<close> of port 0 (as one-hot
  pin masks), counts in \<open>0..10\<close> from 5 and resets to 0. It lives at address \<open>k + 1\<close>.
\<close>

definition encoder_at :: "nat \<Rightarrow> rot_enc_handle_t" where
  "encoder_at k =
     \<lparr>pin_a = push_bit (3 * k) 1, pin_b = push_bit (3 * k + 1) 1,
      button_pin = push_bit (3 * k + 2) 1, port_a = 0, port_b = 0,
      counter = 5, reset_value = 0, counter_max = 10, counter_min = 0,
      old_state = 0, new_state = 0\<rparr>"

definition encoders_heap :: "nat \<Rightarrow> rot_enc_handle_t" where
  "encoders_heap a = encoder_at (a - 1)"

definition startup_state :: "(nat \<Rightarrow> rot_enc_handle_t) \<Rightarrow> driver_state" where
  "startup_state hp = \<lparr>registered_handles = initial_registry, heap = hp\<rparr>"

definition one_encoder_state :: "rot_enc_handle_t \<Rightarrow> driver_state" where
  "one_encoder_state h =
     \<lparr>registered_handles = [Some 1, None, None, None, None],
      heap = (encoders_heap(1 := h))\<rparr>"

definition five_encoders_state :: driver_state where
  "five_encoders_state =
     \<lparr>registered_handles = [Some 1, Some 2, Some 3, Some 4, Some 5],
      heap = encoders_heap\<rparr>"

text \<open>One registered encoder whose reset value, 20, lies above its upper limit, 10.\<close>

definition high_reset_state :: driver_state where
  "high_reset_state = one_encoder_state ((encoder_at 0)\<lparr>reset_value := 20\<rparr>)"

text \<open>One registered encoder configured with its counter, 50, above its upper limit, 10.\<close>

definition high_counter_state :: driver_state where
  "high_counter_state = one_encoder_state ((encoder_at 0)\<lparr>counter := 50\<rparr>)"

text \<open>Pin levels with phase A (pin mask 1) at \<open>a\<close> and every other pin at \<open>b\<close>.\<close>

definition levels_AB :: "GPIO_PinState \<Rightarrow> GPIO_PinState \<Rightarrow> pin_levels" where
  "levels_AB a b port pin = (if pin = 1 then a else b)"

section \<open>Auxiliary facts\<close>

declare init_loop.simps [simp del] determine_trigger_loop.simps [simp del]

subsection \<open>Words\<close>

lemma word8_less_4_cases:
  fixes w :: uint8_t
  assumes "w < 4"
  shows "w = 0 \<or> w = 1 \<or> w = 2 \<or> w = 3"
proof -
  from assms have "unat w < 4" by (simp add: word_less_nat_alt)
  then have "unat w = 0 \<or> unat w = 1 \<or> unat w = 2 \<or> unat w = 3" by arith
  then have "word_of_nat (unat w) = (0 :: uint8_t) \<or> word_of_nat (unat w) = (1 :: uint8_t)
      \<or> word_of_nat (unat w) = (2 :: uint8_t) \<or> word_of_nat (unat w) = (3 :: uint8_t)"
    by (elim disjE) simp_all
  then show ?thesis by simp
qed

lemma sint_decrement:
  fixes a b :: int16_t
  assumes "a <s b"
  shows "sint (b + scast (-1 :: int8_t)) = sint b - 1"
proof -
  have lo: "- (2 ^ 15) \<le> sint a" using sint_ge [of a] by simp
  have hi: "sint b < 2 ^ 15" using sint_lt [of b] by simp
  from assms have "sint a < sint b" by (simp add: word_sless_alt)
  with lo hi have "- (2 ^ 15) \<le> sint b - 1" "sint b - 1 < 2 ^ 15" by simp_all
  then have "signed_take_bit 15 (sint b - 1) = sint b - 1"
    by (rule signed_take_bit_int_eq_self)
  moreover have "sint (b - 1) = signed_take_bit 15 (sint b - 1)"
    by (simp add: sint_word_ariths)
  ultimately show ?thesis by simp
qed

lemma sint_increment:
  fixes a b :: int16_t
  assumes "a <s b"
  shows "sint (a + scast (1 :: int8_t)) = sint a + 1"
proof -
  have lo: "- (2 ^ 15) \<le> sint a" using sint_ge [of a] by simp
  have hi: "sint b < 2 ^ 15" using sint_lt [of b] by simp
  from assms have "sint a < sint b" by (simp add: word_sless_alt)
  with lo hi have "- (2 ^ 15) \<le> sint a + 1" "sint a + 1 < 2 ^ 15" by simp_all
  then have "signed_take_bit 15 (sint a + 1) = sint a + 1"
    by (rule signed_take_bit_int_eq_self)
  moreover have "sint (a + 1) = signed_take_bit 15 (sint a + 1)"
    by (simp add: sint_word_ariths)
  ultimately show ?thesis by simp
qed

subsection \<open>The table and the transition code\<close>

lemma length_rot_enc_lookup_table: "length rot_enc_lookup_table = 16"
  by (simp add: rot_enc_lookup_table_def)

lemma table_values:
  assumes "i < 16"
  shows "rot_enc_lookup_table ! i \<in> {0, 1, -1}"
proof -
  from assms have "rot_enc_lookup_table ! i \<in> set rot_enc_lookup_table"
    by (simp only: nth_mem length_rot_enc_lookup_table)
  also have "set rot_enc_lookup_table = {0, 1, -1}"
    by (auto simp add: rot_enc_lookup_table_def)
  finally show ?thesis .
qed

lemma get_state_less: "get_state levels h < 4"
  by (cases "levels (port_a h) (pin_a h)"; cases "levels (port_b h) (pin_b h)")
     (simp_all add: get_state_def HAL_GPIO_ReadPin_def)

lemma transition_code_unat:
  assumes "old < 4" "new < 4"
  shows "unat (transition_code old new) = unat old * 4 + unat new"
proof -
  from assms(1) have o: "old = 0 \<or> old = 1 \<or> old = 2 \<or> old = 3"
    by (rule word8_less_4_cases)
  from assms(2) have n: "new = 0 \<or> new = 1 \<or> new = 2 \<or> new = 3"
    by (rule word8_less_4_cases)
  from o n show ?thesis
    by (elim disjE) (simp_all add: transition_code_def)
qed

lemma transition_code_less:
  assumes "old < 4" "new < 4"
  shows "unat (transition_code old new) < 16"
proof -
  from assms have "unat old < 4" "unat new < 4" by (simp_all add: word_less_nat_alt)
  with transition_code_unat [OF assms] show ?thesis by simp
qed

lemma lookup_transition_in_table:
  assumes "old < 4" "new < 4"
  shows "lookup_transition old new = Inr (rot_enc_lookup_table ! (unat old * 4 + unat new))"
  using transition_code_less [OF assms] transition_code_unat [OF assms]
  by (simp add: lookup_transition_def length_rot_enc_lookup_table)

lemma lookup_transition_values:
  assumes "lookup_transition old new = Inr v"
  shows "v = 0 \<or> v = 1 \<or> v = -1"
proof -
  from assms have "unat (transition_code old new) < 16"
    and "v = rot_enc_lookup_table ! unat (transition_code old new)"
    by (auto simp: lookup_transition_def Let_def length_rot_enc_lookup_table split: if_splits)
  with table_values show ?thesis by blast
qed

subsection \<open>The counter update\<close>

lemma edit_counter_frame:
  "pin_a (edit_counter h v) = pin_a h"
  "pin_b (edit_counter h v) = pin_b h"
  "button_pin (edit_counter h v) = button_pin h"
  "port_a (edit_counter h v) = port_a h"
  "port_b (edit_counter h v) = port_b h"
  "reset_value (edit_counter h v) = reset_value h"
  "counter_max (edit_counter h v) = counter_max h"
  "counter_min (edit_counter h v) = counter_min h"
  "old_state (edit_counter h v) = old_state h"
  "new_state (edit_counter h v) = new_state h"
  by (simp_all add: edit_counter_def)

lemma edit_counter_sint:
  assumes "v = 0 \<or> v = 1 \<or> v = -1"
  shows "sint (counter (edit_counter h v)) =
    (if v <s 0 \<and> counter_min h <s counter h then sint (counter h) - 1
     else if 0 <s v \<and> counter h <s counter_max h then sint (counter h) + 1
     else sint (counter h))"
  using assms
proof (elim disjE)
  assume "v = 0"
  then show ?thesis by (simp add: edit_counter_def)
next
  assume v: "v = 1"
  then have s: "\<not> v <s 0" "0 <s v" by (simp_all add: word_sless_alt)
  show ?thesis
  proof (cases "counter h <s counter_max h")
    case True
    with s sint_increment [OF True] show ?thesis by (simp add: edit_counter_def v)
  next
    case False
    with s show ?thesis by (simp add: edit_counter_def)
  qed
next
  assume v: "v = -1"
  then have s: "v <s 0" "\<not> 0 <s v" by (simp_all add: word_sless_alt)
  show ?thesis
  proof (cases "counter_min h <s counter h")
    case True
    with s sint_decrement [OF True] show ?thesis by (simp add: edit_counter_def v)
  next
    case False
    with s show ?thesis by (simp add: edit_counter_def)
  qed
qed

lemma edit_counter_within_limits:
  assumes "v = 0 \<or> v = 1 \<or> v = -1" and "within_limits h"
  shows "within_limits (edit_counter h v)"
  using assms(2) edit_counter_sint [OF assms(1), of h]
  by (simp add: within_limits_def word_sle_eq word_sless_alt edit_counter_frame split: if_splits)

subsection \<open>The decode step\<close>

lemma decode_phase_transition_eq:
  assumes "old_state h < 4"
  shows "decode_phase_transition levels h =
    Inr ((edit_counter (h\<lparr>new_state := get_state levels h\<rparr>)
           (rot_enc_lookup_table ! (unat (old_state h) * 4 + unat (get_state levels h))))
         \<lparr>old_state := get_state levels h\<rparr>)"
  using lookup_transition_in_table [OF assms get_state_less, of levels h]
  by (simp add: decode_phase_transition_def Let_def edit_counter_frame)

subsection \<open>The registration loop\<close>

lemma init_loop_full:
  assumes "\<forall>i. index \<le> i \<and> i < MAX_NUM_OF_ENCODERS \<longrightarrow> regs ! i \<noteq> None"
  shows "init_loop regs handle index = (regs, False)"
  using assms
proof (induction regs handle index rule: init_loop.induct)
  case (1 regs handle index)
  show ?case
  proof (cases "index < MAX_NUM_OF_ENCODERS")
    case True
    with "1.prems" have occupied: "regs ! index \<noteq> None" by simp
    from "1.prems" have "\<forall>i. Suc index \<le> i \<and> i < MAX_NUM_OF_ENCODERS \<longrightarrow> regs ! i \<noteq> None"
      by simp
    with "1.IH" True occupied have "init_loop regs handle (Suc index) = (regs, False)"
      by simp
    with True occupied show ?thesis by (auto simp add: init_loop.simps [of regs handle index])
  next
    case False
    then show ?thesis by (simp add: init_loop.simps [of regs handle index])
  qed
qed

lemma init_loop_free:
  assumes "index \<le> i" and "i < MAX_NUM_OF_ENCODERS" and "regs ! i = None"
    and "\<forall>j. index \<le> j \<and> j < i \<longrightarrow> regs ! j \<noteq> None"
  shows "init_loop regs handle index = (regs[i := handle], True)"
  using assms
proof (induction regs handle index rule: init_loop.induct)
  case (1 regs handle index)
  from "1.prems" have lt: "index < MAX_NUM_OF_ENCODERS" by simp
  show ?case
  proof (cases "index = i")
    case True
    with lt "1.prems" show ?thesis by (simp add: init_loop.simps [of regs handle i])
  next
    case False
    with "1.prems" have less: "index < i" by simp
    with "1.prems" have occupied: "regs ! index \<noteq> None" by simp
    from less "1.prems" have "init_loop regs handle (Suc index) = (regs[i := handle], True)"
      by (intro "1.IH" lt occupied) simp_all
    with lt occupied show ?thesis by (auto simp add: init_loop.simps [of regs handle index])
  qed
qed

lemma init_loop_length: "length (fst (init_loop regs handle index)) = length regs"
proof (induction regs handle index rule: init_loop.induct)
  case (1 regs handle index)
  then show ?case by (simp add: init_loop.simps [of regs handle index])
qed

lemma first_free_slot:
  assumes "\<exists>i<n. regs ! i = (None :: handle_ptr)"
  shows "\<exists>i<n. regs ! i = None \<and> (\<forall>j<i. regs ! j \<noteq> None)"
proof -
  let ?P = "\<lambda>i. i < n \<and> regs ! i = None"
  from assms obtain k where "?P k" by blast
  then have "?P (LEAST i. ?P i)" by (rule LeastI)
  moreover have "\<forall>j < (LEAST i. ?P i). regs ! j \<noteq> None"
  proof (intro allI impI)
    fix j assume j: "j < (LEAST i. ?P i)"
    then have "\<not> ?P j" by (rule not_less_Least)
    moreover from j \<open>?P (LEAST i. ?P i)\<close> have "j < n" by simp
    ultimately show "regs ! j \<noteq> None" by simp
  qed
  ultimately show ?thesis by blast
qed

subsection \<open>Resolution\<close>

lemma determine_trigger_loop_no_match:
  assumes "\<forall>i<MAX_NUM_OF_ENCODERS. \<forall>a. registered_handles st ! i = Some a \<longrightarrow>
             \<not> pin_matches (heap st a) GPIO_Pin"
  shows "determine_trigger_loop st GPIO_Pin index = Inl NullPointerDereference
       \<or> determine_trigger_loop st GPIO_Pin index = Inr None"
  using assms
proof (induction st GPIO_Pin index rule: determine_trigger_loop.induct)
  case (1 st GPIO_Pin index)
  show ?case
  proof (cases "index < MAX_NUM_OF_ENCODERS")
    case False
    then show ?thesis by (simp add: determine_trigger_loop.simps [of st GPIO_Pin index])
  next
    case True
    show ?thesis
    proof (cases "registered_handles st ! index")
      case None
      with True show ?thesis by (simp add: determine_trigger_loop.simps [of st GPIO_Pin index])
    next
      case (Some a)
      with True "1.prems" have no: "\<not> pin_matches (heap st a) GPIO_Pin" by blast
      then have "\<not> (pin_a (heap st a) = GPIO_Pin \<or> pin_b (heap st a) = GPIO_Pin
          \<or> button_pin (heap st a) = GPIO_Pin)"
        by (simp add: pin_matches_def)
      with True Some "1.IH" [OF True Some] "1.prems"
      have "determine_trigger_loop st GPIO_Pin (Suc index) = Inl NullPointerDereference
          \<or> determine_trigger_loop st GPIO_Pin (Suc index) = Inr None"
        by blast
      with True Some no show ?thesis
        by (simp add: determine_trigger_loop.simps [of st GPIO_Pin index] pin_matches_def)
    qed
  qed
qed

lemma determine_trigger_loop_first_match:
  assumes "index \<le> i" and "i < MAX_NUM_OF_ENCODERS"
    and "registered_handles st ! i = Some a" and "pin_matches (heap st a) GPIO_Pin"
    and "\<forall>j. index \<le> j \<and> j < i \<longrightarrow>
           (\<exists>b. registered_handles st ! j = Some b \<and> \<not> pin_matches (heap st b) GPIO_Pin)"
  shows "determine_trigger_loop st GPIO_Pin index = Inr (Some a)"
  using assms
proof (induction st GPIO_Pin index rule: determine_trigger_loop.induct)
  case (1 st GPIO_Pin index)
  from "1.prems" have lt: "index < MAX_NUM_OF_ENCODERS" by simp
  show ?case
  proof (cases "index = i")
    case True
    with lt "1.prems" show ?thesis
      by (simp add: determine_trigger_loop.simps [of st GPIO_Pin i] pin_matches_def)
  next
    case False
    with "1.prems" have less: "index < i" by simp
    with "1.prems" obtain b where b: "registered_handles st ! index = Some b"
      and no: "\<not> pin_matches (heap st b) GPIO_Pin" by blast
    from no have no': "\<not> (pin_a (heap st b) = GPIO_Pin \<or> pin_b (heap st b) = GPIO_Pin
          \<or> button_pin (heap st b) = GPIO_Pin)"
      by (simp add: pin_matches_def)
    from less "1.prems" have "determine_trigger_loop st GPIO_Pin (Suc index) = Inr (Some a)"
      by (intro "1.IH" [OF lt b no']) simp_all
    with lt b no show ?thesis
      by (simp add: determine_trigger_loop.simps [of st GPIO_Pin index] pin_matches_def)
  qed
qed

lemma determine_trigger_loop_null_slot:
  assumes "index \<le> i" and "i < MAX_NUM_OF_ENCODERS"
    and "registered_handles st ! i = None"
    and "\<forall>j. index \<le> j \<and> j < i \<longrightarrow>
           (\<exists>b. registered_handles st ! j = Some b \<and> \<not> pin_matches (heap st b) GPIO_Pin)"
  shows "determine_trigger_loop st GPIO_Pin index = Inl NullPointerDereference"
  using assms
proof (induction st GPIO_Pin index rule: determine_trigger_loop.induct)
  case (1 st GPIO_Pin index)
  from "1.prems" have lt: "index < MAX_NUM_OF_ENCODERS" by simp
  show ?case
  proof (cases "index = i")
    case True
    with lt "1.prems" show ?thesis
      by (simp add: determine_trigger_loop.simps [of st GPIO_Pin i])
  next
    case False
    with "1.prems" have less: "index < i" by simp
    with "1.prems" obtain b where b: "registered_handles st ! index = Some b"
      and no: "\<not> pin_matches (heap st b) GPIO_Pin" by blast
    from no have no': "\<not> (pin_a (heap st b) = GPIO_Pin \<or> pin_b (heap st b) = GPIO_Pin
          \<or> button_pin (heap st b) = GPIO_Pin)"
      by (simp add: pin_matches_def)
    from less "1.prems"
    have "determine_trigger_loop st GPIO_Pin (Suc index) = Inl NullPointerDereference"
      by (intro "1.IH" [OF lt b no']) simp_all
    with lt b no show ?thesis
      by (simp add: determine_trigger_loop.simps [of st GPIO_Pin index] pin_matches_def)
  qed
qed

lemma determine_trigger_loop_Some:
  assumes "determine_trigger_loop st GPIO_Pin index = Inr (Some a)"
  shows "\<exists>i. index \<le> i \<and> i < MAX_NUM_OF_ENCODERS \<and> registered_handles st ! i = Some a
     \<and> pin_matches (heap st a) GPIO_Pin
     \<and> (\<forall>j. index \<le> j \<and> j < i \<longrightarrow>
           (\<exists>b. registered_handles st ! j = Some b \<and> \<not> pin_matches (heap st b) GPIO_Pin))"
  using assms
proof (induction st GPIO_Pin index rule: determine_trigger_loop.induct)
  case (1 st GPIO_Pin index)
  from "1.prems" have lt: "index < MAX_NUM_OF_ENCODERS"
    by (simp add: determine_trigger_loop.simps [of st GPIO_Pin index] split: if_splits)
  with "1.prems" obtain b where b: "registered_handles st ! index = Some b"
    by (cases "registered_handles st ! index")
       (simp_all add: determine_trigger_loop.simps [of st GPIO_Pin index])
  show ?case
  proof (cases "pin_matches (heap st b) GPIO_Pin")
    case True
    with lt b "1.prems" have "a = b"
      by (simp add: determine_trigger_loop.simps [of st GPIO_Pin index] pin_matches_def)
    with lt b True show ?thesis by (intro exI [of _ index]) auto
  next
    case False
    then have no': "\<not> (pin_a (heap st b) = GPIO_Pin \<or> pin_b (heap st b) = GPIO_Pin
          \<or> button_pin (heap st b) = GPIO_Pin)"
      by (simp add: pin_matches_def)
    with lt b "1.prems" have "determine_trigger_loop st GPIO_Pin (Suc index) = Inr (Some a)"
      by (simp add: determine_trigger_loop.simps [of st GPIO_Pin index])
    from "1.IH" [OF lt b no' this] obtain i where i: "Suc index \<le> i" "i < MAX_NUM_OF_ENCODERS"
      "registered_handles st ! i = Some a" "pin_matches (heap st a) GPIO_Pin"
      "\<forall>j. Suc index \<le> j \<and> j < i \<longrightarrow>
           (\<exists>b. registered_handles st ! j = Some b \<and> \<not> pin_matches (heap st b) GPIO_Pin)"
      by blast
    have "\<forall>j. index \<le> j \<and> j < i \<longrightarrow>
           (\<exists>b. registered_handles st ! j = Some b \<and> \<not> pin_matches (heap st b) GPIO_Pin)"
    proof (intro allI impI)
      fix j assume j: "index \<le> j \<and> j < i"
      show "\<exists>b. registered_handles st ! j = Some b \<and> \<not> pin_matches (heap st b) GPIO_Pin"
      proof (cases "j = index")
        case True
        with b False show ?thesis by simp
      next
        case False
        with j have "Suc index \<le> j \<and> j < i" by simp
        with i(5) show ?thesis by blast
      qed
    qed
    with i show ?thesis by (intro exI [of _ i]) simp
  qed
qed

subsection \<open>What the callback leaves alone\<close>

lemma decode_phase_transition_Inr:
  assumes "decode_phase_transition levels h = Inr h'"
  shows "configuration h' = configuration h"
    and "old_state h' = get_state levels h"
    and "new_state h' = get_state levels h"
    and "within_limits h \<Longrightarrow> within_limits h'"
proof -
  let ?h = "h\<lparr>new_state := get_state levels h\<rparr>"
  from assms obtain v where l: "lookup_transition (old_state h) (get_state levels h) = Inr v"
    and h': "h' = (edit_counter ?h v)\<lparr>old_state := get_state levels h\<rparr>"
    by (auto simp: decode_phase_transition_def Let_def edit_counter_frame split: sum.splits)
  from h' show "configuration h' = configuration h"
    by (simp add: configuration_def edit_counter_frame)
  from h' show "old_state h' = get_state levels h" by simp
  from h' show "new_state h' = get_state levels h" by (simp add: edit_counter_frame)
  from l have v: "v = 0 \<or> v = 1 \<or> v = -1" by (rule lookup_transition_values)
  show "within_limits h'" if "within_limits h"
  proof -
    from that have "within_limits ?h" by (simp add: within_limits_def)
    with v have "within_limits (edit_counter ?h v)" by (rule edit_counter_within_limits)
    with h' show ?thesis by (simp add: within_limits_def)
  qed
qed

lemma rot_enc_callback_Inr:
  assumes "rot_enc_callback levels st GPIO_Pin = Inr st'"
  obtains (button) a where "determine_trigger st GPIO_Pin = Inr (Some a)"
      and "button_pin (heap st a) = GPIO_Pin"
      and "st' = st\<lparr>heap := (heap st)(a := (heap st a)\<lparr>counter := reset_value (heap st a)\<rparr>)\<rparr>"
    | (phase) a h' where "determine_trigger st GPIO_Pin = Inr (Some a)"
      and "button_pin (heap st a) \<noteq> GPIO_Pin"
      and "decode_phase_transition levels (heap st a) = Inr h'"
      and "st' = st\<lparr>heap := (heap st)(a := h')\<rparr>"
  using assms
  by (auto simp: rot_enc_callback_def split: sum.splits option.splits if_splits)

lemma rot_enc_callback_frame:
  assumes "rot_enc_callback levels st GPIO_Pin = Inr st'"
  shows "registered_handles st' = registered_handles st"
    and "configuration (heap st' b) = configuration (heap st b)"
  using assms
proof (atomize (full), cases rule: rot_enc_callback_Inr)
  case (button a)
  then show "registered_handles st' = registered_handles st \<and>
      configuration (heap st' b) = configuration (heap st b)"
    by (simp add: configuration_def)
next
  case (phase a h')
  from phase(3) have "configuration h' = configuration (heap st a)"
    by (rule decode_phase_transition_Inr)
  with phase(4) show "registered_handles st' = registered_handles st \<and>
      configuration (heap st' b) = configuration (heap st b)"
    by simp
qed

lemma determine_trigger_loop_cong:
  assumes "registered_handles st' = registered_handles st"
    and "\<forall>b. configuration (heap st' b) = configuration (heap st b)"
  shows "determine_trigger_loop st' GPIO_Pin index = determine_trigger_loop st GPIO_Pin index"
  using assms
proof (induction st GPIO_Pin index rule: determine_trigger_loop.induct)
  case (1 st GPIO_Pin index)
  have pins: "pin_a (heap st' b) = pin_a (heap st b)" "pin_b (heap st' b) = pin_b (heap st b)"
    "button_pin (heap st' b) = button_pin (heap st b)" for b
    using "1.prems"(2) [rule_format, of b] by (simp_all add: configuration_def)
  show ?case
  proof (cases "index < MAX_NUM_OF_ENCODERS")
    case False
    then show ?thesis
      by (simp add: determine_trigger_loop.simps [of st GPIO_Pin index]
          determine_trigger_loop.simps [of st' GPIO_Pin index])
  next
    case True
    show ?thesis
    proof (cases "registered_handles st ! index")
      case None
      with True "1.prems"(1) show ?thesis
        by (simp add: determine_trigger_loop.simps [of st GPIO_Pin index]
            determine_trigger_loop.simps [of st' GPIO_Pin index])
    next
      case (Some a)
      show ?thesis
      proof (cases "pin_a (heap st a) = GPIO_Pin \<or> pin_b (heap st a) = GPIO_Pin
          \<or> button_pin (heap st a) = GPIO_Pin")
        case match: True
        with True Some "1.prems"(1) pins [of a] show ?thesis
          by (simp add: determine_trigger_loop.simps [of st GPIO_Pin index]
              determine_trigger_loop.simps [of st' GPIO_Pin index])
      next
        case False
        from "1.IH" [OF True Some False "1.prems"]
        have "determine_trigger_loop st' GPIO_Pin (Suc index) =
            determine_trigger_loop st GPIO_Pin (Suc index)" .
        with True Some False "1.prems"(1) pins [of a] show ?thesis
          by (simp add: determine_trigger_loop.simps [of st GPIO_Pin index]
              determine_trigger_loop.simps [of st' GPIO_Pin index])
      qed
    qed
  qed
qed

lemma determine_trigger_after_callback:
  assumes "rot_enc_callback levels st GPIO_Pin = Inr st'"
  shows "determine_trigger st' pin = determine_trigger st pin"
  unfolding determine_trigger_def
  using rot_enc_callback_frame [OF assms]
  by (intro determine_trigger_loop_cong) simp_all

lemma get_state_configuration:
  assumes "configuration h' = configuration h"
  shows "get_state levels h' = get_state levels h"
  using assms by (simp add: configuration_def get_state_def)

subsection \<open>Runs of events\<close>

lemma reset_within_limits_configuration:
  assumes "configuration h' = configuration h"
  shows "reset_within_limits h' = reset_within_limits h"
  using assms by (simp add: configuration_def reset_within_limits_def)

lemma rot_enc_callback_within_limits:
  assumes "rot_enc_callback levels st GPIO_Pin = Inr st'"
    and "within_limits (heap st b)" and "reset_within_limits (heap st b)"
  shows "within_limits (heap st' b) \<and> reset_within_limits (heap st' b)"
proof -
  from assms(1) have "configuration (heap st' b) = configuration (heap st b)"
    by (rule rot_enc_callback_frame)
  then have "reset_within_limits (heap st' b) = reset_within_limits (heap st b)"
    by (rule reset_within_limits_configuration)
  with assms(3) have r: "reset_within_limits (heap st' b)" by simp
  from assms(1) have "within_limits (heap st' b)"
  proof (cases rule: rot_enc_callback_Inr)
    case (button a)
    show ?thesis
    proof (cases "b = a")
      case True
      from assms(3) have "within_limits ((heap st b)\<lparr>counter := reset_value (heap st b)\<rparr>)"
        by (simp add: within_limits_def reset_within_limits_def)
      with True button(3) show ?thesis by simp
    next
      case False
      with assms(2) button(3) show ?thesis by simp
    qed
  next
    case (phase a h')
    show ?thesis
    proof (cases "b = a")
      case True
      with assms(2) decode_phase_transition_Inr(4) [OF phase(3)] phase(4) show ?thesis by simp
    next
      case False
      with assms(2) phase(4) show ?thesis by simp
    qed
  qed
  with r show ?thesis by simp
qed

lemma rot_enc_callback_old_state:
  assumes "rot_enc_callback levels st GPIO_Pin = Inr st'" and "old_state (heap st b) < 4"
  shows "old_state (heap st' b) < 4"
  using assms(1)
proof (cases rule: rot_enc_callback_Inr)
  case (button a)
  with assms(2) show ?thesis by auto
next
  case (phase a h')
  from phase(3) have "old_state h' = get_state levels (heap st a)"
    by (rule decode_phase_transition_Inr)
  then have "old_state h' < 4" by (simp add: get_state_less)
  with assms(2) phase(4) show ?thesis by simp
qed

lemma deliver_events_take:
  assumes "deliver_events st es = Inr st'"
  shows "\<exists>st_n. deliver_events st (take n es) = Inr st_n"
  using assms
proof (induction es arbitrary: st n)
  case Nil
  then show ?case by simp
next
  case (Cons e es)
  obtain levels GPIO_Pin where e: "e = (levels, GPIO_Pin)" by (cases e)
  show ?case
  proof (cases n)
    case 0
    then show ?thesis by simp
  next
    case (Suc m)
    from Cons.prems e obtain st1 where st1: "rot_enc_callback levels st GPIO_Pin = Inr st1"
      and rest: "deliver_events st1 es = Inr st'"
      by (auto split: sum.splits)
    from Cons.IH [OF rest, of m] obtain st_n where "deliver_events st1 (take m es) = Inr st_n" ..
    with st1 e Suc show ?thesis by simp
  qed
qed

lemma deliver_events_within_limits:
  assumes "deliver_events st es = Inr st'"
    and "within_limits (heap st b)" and "reset_within_limits (heap st b)"
  shows "within_limits (heap st' b) \<and> reset_within_limits (heap st' b)"
  using assms
proof (induction es arbitrary: st)
  case Nil
  then show ?case by simp
next
  case (Cons e es)
  obtain levels GPIO_Pin where e: "e = (levels, GPIO_Pin)" by (cases e)
  from Cons.prems(1) e obtain st1 where st1: "rot_enc_callback levels st GPIO_Pin = Inr st1"
    and rest: "deliver_events st1 es = Inr st'"
    by (auto split: sum.splits)
  from rot_enc_callback_within_limits [OF st1 Cons.prems(2,3)]
  have "within_limits (heap st1 b)" "reset_within_limits (heap st1 b)" by simp_all
  with rest show ?case by (rule Cons.IH)
qed

lemma deliver_events_old_state:
  assumes "deliver_events st es = Inr st'" and "old_state (heap st b) < 4"
  shows "old_state (heap st' b) < 4"
  using assms
proof (induction es arbitrary: st)
  case Nil
  then show ?case by simp
next
  case (Cons e es)
  obtain levels GPIO_Pin where e: "e = (levels, GPIO_Pin)" by (cases e)
  from Cons.prems(1) e obtain st1 where st1: "rot_enc_callback levels st GPIO_Pin = Inr st1"
    and rest: "deliver_events st1 es = Inr st'"
    by (auto split: sum.splits)
  from st1 Cons.prems(2) have "old_state (heap st1 b) < 4" by (rule rot_enc_callback_old_state)
  with rest show ?case by (rule Cons.IH)
qed

lemma rot_enc_callback_phase_edge:
  assumes "determine_trigger st GPIO_Pin = Inr (Some a)"
    and "GPIO_Pin \<noteq> button_pin (heap st a)" and "old_state (heap st a) < 4"
  shows "\<exists>st1. rot_enc_callback levels st GPIO_Pin = Inr st1
     \<and> old_state (heap st1 a) = get_state levels (heap st a)
     \<and> new_state (heap st1 a) = get_state levels (heap st a)
     \<and> configuration (heap st1 a) = configuration (heap st a)"
proof -
  from decode_phase_transition_eq [OF assms(3), of levels]
  obtain h' where d: "decode_phase_transition levels (heap st a) = Inr h'" by blast
  with assms(1,2)
  have "rot_enc_callback levels st GPIO_Pin = Inr (st\<lparr>heap := (heap st)(a := h')\<rparr>)"
    by (auto simp: rot_enc_callback_def)
  with decode_phase_transition_Inr(1,2,3) [OF d] show ?thesis by simp
qed

subsection \<open>Unfolding the decoder on concrete inputs\<close>

lemmas decoder_defs =
  rot_enc_callback_def determine_trigger_def determine_trigger_loop.simps
  decode_phase_transition_def lookup_transition_def transition_code_def get_state_def
  HAL_GPIO_ReadPin_def edit_counter_def rot_enc_lookup_table_def MAX_NUM_OF_ENCODERS_def

lemmas example_defs =
  one_encoder_state_def high_reset_state_def high_counter_state_def encoder_at_def encoders_heap_def levels_AB_def

section \<open>Verified claims\<close>

text \<open>
  Claim C2. For each of the 16 transition codes \<^verbatim>\<open>prev*4+new\<close> with \<open>prev\<close> and \<open>new\<close> in
  \<open>[0,3]\<close>, the decode step reads the table at exactly that code without a fault, and the
  step it reads is the entry of the table printed in the specification: \<open>-1\<close> for the codes
  1, 7, 8, 14, \<open>+1\<close> for 2, 4, 11, 13, and \<open>0\<close> for the others (no change and double-bit
  transitions alike).
\<close>
theorem decode_step_matches_table:
  assumes "prev < 4" and "new < 4"
    and "old_state h = prev" and "get_state levels h = new"
  shows "\<exists>v. lookup_transition prev new = Inr v
     \<and> decode_phase_transition levels h =
         Inr ((edit_counter (h\<lparr>new_state := new\<rparr>) v)\<lparr>old_state := new\<rparr>)
     \<and> unat (transition_code prev new) = unat prev * 4 + unat new
     \<and> sint v = spec_transition_table ! (unat prev * 4 + unat new)
     \<and> sint v = spec_step_of_code (unat prev * 4 + unat new)"
proof -
  let ?code = "unat prev * 4 + unat new"
  let ?v = "rot_enc_lookup_table ! ?code"
  have l: "lookup_transition prev new = Inr ?v"
    using assms(1,2) by (rule lookup_transition_in_table)
  have d: "decode_phase_transition levels h =
      Inr ((edit_counter (h\<lparr>new_state := new\<rparr>) ?v)\<lparr>old_state := new\<rparr>)"
    using decode_phase_transition_eq [of h levels] assms by simp
  have c: "unat (transition_code prev new) = ?code"
    using assms(1,2) by (rule transition_code_unat)
  from assms(1) have p: "prev = 0 \<or> prev = 1 \<or> prev = 2 \<or> prev = 3"
    by (rule word8_less_4_cases)
  from assms(2) have n: "new = 0 \<or> new = 1 \<or> new = 2 \<or> new = 3"
    by (rule word8_less_4_cases)
  from p n have t: "sint ?v = spec_transition_table ! ?code"
    by (elim disjE) (simp_all add: rot_enc_lookup_table_def spec_transition_table_def)
  from p n have s: "sint ?v = spec_step_of_code ?code"
    by (elim disjE) (simp_all add: rot_enc_lookup_table_def spec_step_of_code_def)
  from l d c t s show ?thesis by blast
qed

text \<open>The transition from state 1 to state 2 (code 6, a double-bit change).\<close>
theorem decode_step_matches_table_witness:
  "(1 :: uint8_t) < 4 \<and> (2 :: uint8_t) < 4
   \<and> old_state ((encoder_at 0)\<lparr>old_state := 1\<rparr>) = 1
   \<and> get_state (levels_AB GPIO_PIN_SET GPIO_PIN_RESET) ((encoder_at 0)\<lparr>old_state := 1\<rparr>) = 2
   \<and> (\<exists>v. lookup_transition 1 2 = Inr v
     \<and> decode_phase_transition (levels_AB GPIO_PIN_SET GPIO_PIN_RESET)
          ((encoder_at 0)\<lparr>old_state := 1\<rparr>) =
         Inr ((edit_counter ((encoder_at 0)\<lparr>old_state := 1, new_state := 2\<rparr>) v)\<lparr>old_state := 2\<rparr>)
     \<and> unat (transition_code 1 2) = unat (1 :: uint8_t) * 4 + unat (2 :: uint8_t)
     \<and> sint v = spec_transition_table ! (unat (1 :: uint8_t) * 4 + unat (2 :: uint8_t))
     \<and> sint v = spec_step_of_code (unat (1 :: uint8_t) * 4 + unat (2 :: uint8_t)))"
proof -
  have a: "(1 :: uint8_t) < 4" and b: "(2 :: uint8_t) < 4" by simp_all
  have c: "old_state ((encoder_at 0)\<lparr>old_state := 1\<rparr>) = 1" by simp
  have d: "get_state (levels_AB GPIO_PIN_SET GPIO_PIN_RESET) ((encoder_at 0)\<lparr>old_state := 1\<rparr>) = 2"
    by (simp add: get_state_def HAL_GPIO_ReadPin_def levels_AB_def encoder_at_def)
  from decode_step_matches_table [OF a b c d] a b c d show ?thesis by simp
qed

text \<open>
  Claim C10. The table is antisymmetric under reversal: the entry for \<open>(prev, new)\<close> is the
  negation of the entry for \<open>(new, prev)\<close>, so the two steps add up to zero, and every
  diagonal entry is 0.
\<close>
theorem table_antisymmetric:
  fixes prev new :: nat
  assumes "prev < 4" and "new < 4"
  shows "rot_enc_lookup_table ! (prev * 4 + new) = - rot_enc_lookup_table ! (new * 4 + prev)
     \<and> sint (rot_enc_lookup_table ! (prev * 4 + new))
         + sint (rot_enc_lookup_table ! (new * 4 + prev)) = 0
     \<and> rot_enc_lookup_table ! (prev * 4 + prev) = 0"
proof -
  from assms(1) have p: "prev = 0 \<or> prev = 1 \<or> prev = 2 \<or> prev = 3" by arith
  from assms(2) have n: "new = 0 \<or> new = 1 \<or> new = 2 \<or> new = 3" by arith
  from p n show ?thesis
    by (elim disjE) (simp_all add: rot_enc_lookup_table_def)
qed

text \<open>The pair of codes 7 and 13.\<close>
theorem table_antisymmetric_witness:
  "(1 :: nat) < 4 \<and> (3 :: nat) < 4
   \<and> rot_enc_lookup_table ! (1 * 4 + 3) = - rot_enc_lookup_table ! (3 * 4 + 1)
   \<and> sint (rot_enc_lookup_table ! (1 * 4 + 3)) + sint (rot_enc_lookup_table ! (3 * 4 + 1)) = 0
   \<and> rot_enc_lookup_table ! (1 * 4 + 1) = 0"
proof -
  have a: "(1 :: nat) < 4" and b: "(3 :: nat) < 4" by simp_all
  from table_antisymmetric [OF a b] a b show ?thesis by blast
qed

text \<open>
  Claim C3. In the quadrature step a negative table entry moves the counter (down by one,
  without wrapping) exactly when \<^verbatim>\<open>counter > counter_min\<close> held before the step, a positive
  entry moves it (up by one) exactly when \<^verbatim>\<open>counter < counter_max\<close> held, and in every other
  case the counter is unchanged.
\<close>
theorem clamped_step:
  assumes "old_state h < 4"
  shows "\<exists>v h'. lookup_transition (old_state h) (get_state levels h) = Inr v
     \<and> decode_phase_transition levels h = Inr h'
     \<and> sint (counter h') =
         (if v <s 0 \<and> counter_min h <s counter h then sint (counter h) - 1
          else if 0 <s v \<and> counter h <s counter_max h then sint (counter h) + 1
          else sint (counter h))
     \<and> (v <s 0 \<longrightarrow> (counter h' \<noteq> counter h) = (counter_min h <s counter h))
     \<and> (0 <s v \<longrightarrow> (counter h' \<noteq> counter h) = (counter h <s counter_max h))
     \<and> (\<not> v <s 0 \<and> \<not> 0 <s v \<longrightarrow> counter h' = counter h)"
proof -
  let ?new = "get_state levels h"
  let ?v = "rot_enc_lookup_table ! (unat (old_state h) * 4 + unat ?new)"
  let ?h = "h\<lparr>new_state := ?new\<rparr>"
  let ?h' = "(edit_counter ?h ?v)\<lparr>old_state := ?new\<rparr>"
  have l: "lookup_transition (old_state h) ?new = Inr ?v"
    using assms get_state_less by (rule lookup_transition_in_table)
  then have v: "?v = 0 \<or> ?v = 1 \<or> ?v = -1" by (rule lookup_transition_values)
  have d: "decode_phase_transition levels h = Inr ?h'"
    using assms by (rule decode_phase_transition_eq)
  have s: "sint (counter ?h') =
         (if ?v <s 0 \<and> counter_min h <s counter h then sint (counter h) - 1
          else if 0 <s ?v \<and> counter h <s counter_max h then sint (counter h) + 1
          else sint (counter h))"
    using edit_counter_sint [OF v, of ?h] by simp
  have e1: "?v <s 0 \<longrightarrow> (counter ?h' \<noteq> counter h) = (counter_min h <s counter h)"
  proof
    assume n: "?v <s 0"
    show "(counter ?h' \<noteq> counter h) = (counter_min h <s counter h)"
    proof (cases "counter_min h <s counter h")
      case True
      with n s have "sint (counter ?h') = sint (counter h) - 1" by simp
      then have "counter ?h' \<noteq> counter h" by auto
      with True show ?thesis by simp
    next
      case False
      with n have "counter ?h' = counter h" by (simp add: edit_counter_def)
      with False show ?thesis by simp
    qed
  qed
  have e2: "0 <s ?v \<longrightarrow> (counter ?h' \<noteq> counter h) = (counter h <s counter_max h)"
  proof
    assume p: "0 <s ?v"
    then have n: "\<not> ?v <s 0" by (simp add: word_sless_alt)
    show "(counter ?h' \<noteq> counter h) = (counter h <s counter_max h)"
    proof (cases "counter h <s counter_max h")
      case True
      with p n s have "sint (counter ?h') = sint (counter h) + 1" by simp
      then have "counter ?h' \<noteq> counter h" by auto
      with True show ?thesis by simp
    next
      case False
      with p n have "counter ?h' = counter h" by (simp add: edit_counter_def)
      with False show ?thesis by simp
    qed
  qed
  have e3: "\<not> ?v <s 0 \<and> \<not> 0 <s ?v \<longrightarrow> counter ?h' = counter h"
    by (simp add: edit_counter_def)
  from l d s e1 e2 e3 show ?thesis by blast
qed


text \<open>
  The scenario of the specification: bounds \<open>0..10\<close>, counter at 10, forward step (code 2);
  the counter stays at 10.
\<close>
theorem clamped_step_witness:
  "old_state ((encoder_at 0)\<lparr>counter := 10\<rparr>) < 4
   \<and> lookup_transition (old_state ((encoder_at 0)\<lparr>counter := 10\<rparr>))
        (get_state (levels_AB GPIO_PIN_SET GPIO_PIN_RESET) ((encoder_at 0)\<lparr>counter := 10\<rparr>)) = Inr 1
   \<and> 0 <s (1 :: int8_t)
   \<and> \<not> counter ((encoder_at 0)\<lparr>counter := 10\<rparr>) <s counter_max ((encoder_at 0)\<lparr>counter := 10\<rparr>)
   \<and> (\<exists>h'. decode_phase_transition (levels_AB GPIO_PIN_SET GPIO_PIN_RESET)
              ((encoder_at 0)\<lparr>counter := 10\<rparr>) = Inr h'
          \<and> counter h' = 10)"
proof -
  let ?h = "(encoder_at 0)\<lparr>counter := 10\<rparr>"
  let ?L = "levels_AB GPIO_PIN_SET GPIO_PIN_RESET"
  have a: "old_state ?h < 4" by (simp add: encoder_at_def)
  have g: "get_state ?L ?h = 2"
    by (simp add: get_state_def HAL_GPIO_ReadPin_def levels_AB_def encoder_at_def)
  have l: "lookup_transition (old_state ?h) (get_state ?L ?h) = Inr 1"
  proof -
    have o: "old_state ?h = 0" by (simp add: encoder_at_def)
    have "lookup_transition 0 2 = Inr 1"
      by (simp add: lookup_transition_def transition_code_def rot_enc_lookup_table_def)
    then show ?thesis by (simp only: o g)
  qed
  have p: "0 <s (1 :: int8_t)" by (simp add: word_sless_alt)
  have m: "\<not> counter ?h <s counter_max ?h" by (simp add: encoder_at_def)
  from clamped_step [OF a, of ?L] obtain v h'
    where "lookup_transition (old_state ?h) (get_state ?L ?h) = Inr v"
      and d: "decode_phase_transition ?L ?h = Inr h'"
      and "0 <s v \<longrightarrow> (counter h' \<noteq> counter ?h) = (counter ?h <s counter_max ?h)"
    by blast
  with l p m have "counter h' = counter ?h" by simp
  then have "counter h' = 10" by simp
  with a l p m d show ?thesis by blast
qed

text \<open>
  Claim C8. With a free slot among the \<^verbatim>\<open>MAX_NUM_OF_ENCODERS\<close> (5), registration stores the
  given pointer in the first free slot and returns success; with every slot occupied it
  returns failure and leaves the whole driver state as it was, so the callback behaves as
  before on every pin.
\<close>
theorem registration:
  assumes "length (registered_handles st) = MAX_NUM_OF_ENCODERS"
  shows "(\<forall>i<MAX_NUM_OF_ENCODERS.
            registered_handles st ! i = None \<and> (\<forall>j<i. registered_handles st ! j \<noteq> None) \<longrightarrow>
            init_rotary_encoder st handle =
              (st\<lparr>registered_handles := (registered_handles st)[i := handle]\<rparr>, True))
     \<and> ((\<exists>i<MAX_NUM_OF_ENCODERS. registered_handles st ! i = None) \<longrightarrow>
            snd (init_rotary_encoder st handle))
     \<and> ((\<forall>i<MAX_NUM_OF_ENCODERS. registered_handles st ! i \<noteq> None) \<longrightarrow>
            init_rotary_encoder st handle = (st, False)
            \<and> (\<forall>levels GPIO_Pin.
                  rot_enc_callback levels (fst (init_rotary_encoder st handle)) GPIO_Pin =
                  rot_enc_callback levels st GPIO_Pin))
     \<and> length (registered_handles (fst (init_rotary_encoder st handle))) = MAX_NUM_OF_ENCODERS"
proof -
  let ?regs = "registered_handles st"
  have free: "init_rotary_encoder st handle = (st\<lparr>registered_handles := ?regs[i := handle]\<rparr>, True)"
    if "i < MAX_NUM_OF_ENCODERS" "?regs ! i = None" "\<forall>j<i. ?regs ! j \<noteq> None" for i
  proof -
    from that have "init_loop ?regs handle 0 = (?regs[i := handle], True)"
      by (intro init_loop_free) simp_all
    then show ?thesis by (simp add: init_rotary_encoder_def)
  qed
  have some: "snd (init_rotary_encoder st handle)"
    if "\<exists>i<MAX_NUM_OF_ENCODERS. ?regs ! i = None"
  proof -
    from first_free_slot [OF that] obtain i
      where "i < MAX_NUM_OF_ENCODERS" "?regs ! i = None" "\<forall>j<i. ?regs ! j \<noteq> None" by blast
    then show ?thesis using free by simp
  qed
  have full: "init_rotary_encoder st handle = (st, False)"
    if "\<forall>i<MAX_NUM_OF_ENCODERS. ?regs ! i \<noteq> None"
  proof -
    from that have "init_loop ?regs handle 0 = (?regs, False)"
      by (intro init_loop_full) simp
    then show ?thesis by (simp add: init_rotary_encoder_def)
  qed
  have len: "length (registered_handles (fst (init_rotary_encoder st handle))) = MAX_NUM_OF_ENCODERS"
    using assms init_loop_length [of ?regs handle 0]
    by (cases "init_loop ?regs handle 0") (simp add: init_rotary_encoder_def)
  from free some full len show ?thesis by simp
qed


text \<open>
  A sixth registration on five registered encoders fails and changes nothing; a first
  registration at start-up fills slot 0.
\<close>
theorem registration_witness:
  "length (registered_handles five_encoders_state) = MAX_NUM_OF_ENCODERS
   \<and> registered_handles five_encoders_state = [Some 1, Some 2, Some 3, Some 4, Some 5]
   \<and> init_rotary_encoder five_encoders_state (Some 6) = (five_encoders_state, False)
   \<and> rot_enc_callback (levels_AB GPIO_PIN_SET GPIO_PIN_RESET)
        (fst (init_rotary_encoder five_encoders_state (Some 6))) 1 =
      rot_enc_callback (levels_AB GPIO_PIN_SET GPIO_PIN_RESET) five_encoders_state 1
   \<and> registered_handles (startup_state encoders_heap) ! 0 = None
   \<and> init_rotary_encoder (startup_state encoders_heap) (Some 1) =
        ((startup_state encoders_heap)
           \<lparr>registered_handles := (registered_handles (startup_state encoders_heap))[0 := Some 1]\<rparr>,
         True)"
proof -
  have len5: "length (registered_handles five_encoders_state) = MAX_NUM_OF_ENCODERS"
    by (simp add: five_encoders_state_def MAX_NUM_OF_ENCODERS_def)
  have full: "\<forall>i<MAX_NUM_OF_ENCODERS. registered_handles five_encoders_state ! i \<noteq> None"
  proof (intro allI impI)
    fix i assume "i < MAX_NUM_OF_ENCODERS"
    then have "i = 0 \<or> i = 1 \<or> i = 2 \<or> i = 3 \<or> i = 4"
      unfolding MAX_NUM_OF_ENCODERS_def by arith
    then show "registered_handles five_encoders_state ! i \<noteq> None"
      by (elim disjE) (simp_all add: five_encoders_state_def)
  qed
  have len0: "length (registered_handles (startup_state encoders_heap)) = MAX_NUM_OF_ENCODERS"
    by (simp add: startup_state_def initial_registry_def)
  have free: "registered_handles (startup_state encoders_heap) ! 0 = None"
    by (simp add: startup_state_def initial_registry_def MAX_NUM_OF_ENCODERS_def)
  have pos: "0 < MAX_NUM_OF_ENCODERS" by (simp add: MAX_NUM_OF_ENCODERS_def)
  have regs: "registered_handles five_encoders_state = [Some 1, Some 2, Some 3, Some 4, Some 5]"
    by (simp add: five_encoders_state_def)
  from registration [OF len5, of "Some 6"] full
  have sixth: "init_rotary_encoder five_encoders_state (Some 6) = (five_encoders_state, False)"
    and same: "rot_enc_callback (levels_AB GPIO_PIN_SET GPIO_PIN_RESET)
        (fst (init_rotary_encoder five_encoders_state (Some 6))) 1 =
      rot_enc_callback (levels_AB GPIO_PIN_SET GPIO_PIN_RESET) five_encoders_state 1"
    by blast+
  from registration [OF len0, of "Some 1"] free pos
  have first: "init_rotary_encoder (startup_state encoders_heap) (Some 1) =
        ((startup_state encoders_heap)
           \<lparr>registered_handles := (registered_handles (startup_state encoders_heap))[0 := Some 1]\<rparr>,
         True)"
    by blast
  from len5 regs sixth same free first show ?thesis by (intro conjI)
qed

text \<open>
  Claim C5. When the pin of the event is the button pin of the resolved handle, the callback
  writes \<^verbatim>\<open>reset_value\<close> into \<^verbatim>\<open>counter\<close>, whatever the counter and the phase state were, and
  changes nothing else: the phase states, the configuration, the other handles and the
  registry stay as they were.
\<close>
theorem button_reset:
  assumes "determine_trigger st GPIO_Pin = Inr (Some a)"
    and "button_pin (heap st a) = GPIO_Pin"
  shows "\<exists>st'. rot_enc_callback levels st GPIO_Pin = Inr st'
     \<and> st' = st\<lparr>heap := (heap st)(a := (heap st a)\<lparr>counter := reset_value (heap st a)\<rparr>)\<rparr>
     \<and> counter (heap st' a) = reset_value (heap st a)
     \<and> old_state (heap st' a) = old_state (heap st a)
     \<and> new_state (heap st' a) = new_state (heap st a)
     \<and> configuration (heap st' a) = configuration (heap st a)"
  using assms by (simp add: rot_enc_callback_def configuration_def)

text \<open>A button event on an encoder whose phase state is 2 and whose counter is 5.\<close>
theorem button_reset_witness:
  "determine_trigger (one_encoder_state ((encoder_at 0)\<lparr>old_state := 2\<rparr>)) 4 = Inr (Some 1)
   \<and> button_pin (heap (one_encoder_state ((encoder_at 0)\<lparr>old_state := 2\<rparr>)) 1) = 4
   \<and> (\<exists>st'. rot_enc_callback (levels_AB GPIO_PIN_SET GPIO_PIN_SET)
               (one_encoder_state ((encoder_at 0)\<lparr>old_state := 2\<rparr>)) 4 = Inr st'
          \<and> counter (heap st' 1) = 0 \<and> old_state (heap st' 1) = 2)"
proof -
  let ?st = "one_encoder_state ((encoder_at 0)\<lparr>old_state := 2\<rparr>)"
  have d: "determine_trigger ?st 4 = Inr (Some 1)"
    by (simp add: determine_trigger_def determine_trigger_loop.simps one_encoder_state_def
        MAX_NUM_OF_ENCODERS_def encoder_at_def)
  have b: "button_pin (heap ?st 1) = 4"
    by (simp add: one_encoder_state_def encoder_at_def)
  have r: "reset_value (heap ?st 1) = 0" "old_state (heap ?st 1) = 2"
    by (simp_all add: one_encoder_state_def encoder_at_def)
  from button_reset [OF d b, of "levels_AB GPIO_PIN_SET GPIO_PIN_SET"] r d b
  show ?thesis by auto
qed

text \<open>
  Claim C6 says that resolution returns none when no registered instance matches or the
  registry is empty. The loop of \<^verbatim>\<open>determine_trigger\<close> reads the pins of every slot it
  visits without testing the slot: on the empty registry, for every pin, and on a registry
  holding one encoder, for a pin that is not one of its three, it dereferences a \<^verbatim>\<open>NULL\<close>
  slot instead of returning \<^verbatim>\<open>NULL\<close>.
\<close>
theorem determine_trigger_null_slot_fault:
  "determine_trigger (startup_state hp) GPIO_Pin = Inl NullPointerDereference
   \<and> determine_trigger (one_encoder_state (encoder_at 0)) 8 = Inl NullPointerDereference"
  by (simp add: determine_trigger_def determine_trigger_loop.simps startup_state_def
      initial_registry_def one_encoder_state_def MAX_NUM_OF_ENCODERS_def encoder_at_def)

text \<open>
  Claim C7. The callback reads \<^verbatim>\<open>handle_ptr->button_pin\<close> without testing the pointer:
  whenever resolution returns \<^verbatim>\<open>NULL\<close> the callback dereferences it, an event whose pin
  matches no registered handle always ends in a null dereference, and the \<^verbatim>\<open>NULL\<close> result
  is reachable (five registered encoders, an unused pin).
\<close>
theorem unchecked_null_dereference:
  "(determine_trigger st GPIO_Pin = Inr None \<longrightarrow>
      rot_enc_callback levels st GPIO_Pin = Inl NullPointerDereference)
   \<and> ((\<forall>i<MAX_NUM_OF_ENCODERS. \<forall>a. registered_handles st ! i = Some a \<longrightarrow>
          \<not> pin_matches (heap st a) GPIO_Pin) \<longrightarrow>
      rot_enc_callback levels st GPIO_Pin = Inl NullPointerDereference)
   \<and> determine_trigger five_encoders_state 0x8000 = Inr None"
proof (intro conjI impI)
  assume "determine_trigger st GPIO_Pin = Inr None"
  then show "rot_enc_callback levels st GPIO_Pin = Inl NullPointerDereference"
    by (simp add: rot_enc_callback_def)
next
  assume "\<forall>i<MAX_NUM_OF_ENCODERS. \<forall>a. registered_handles st ! i = Some a \<longrightarrow>
          \<not> pin_matches (heap st a) GPIO_Pin"
  then have "determine_trigger st GPIO_Pin = Inl NullPointerDereference
      \<or> determine_trigger st GPIO_Pin = Inr None"
    unfolding determine_trigger_def by (rule determine_trigger_loop_no_match)
  then show "rot_enc_callback levels st GPIO_Pin = Inl NullPointerDereference"
    by (auto simp: rot_enc_callback_def)
next
  show "determine_trigger five_encoders_state 0x8000 = Inr None"
    by (simp add: determine_trigger_def determine_trigger_loop.simps five_encoders_state_def
        MAX_NUM_OF_ENCODERS_def encoders_heap_def encoder_at_def)
qed

text \<open>Pin 15 fires while the five encoders on pins 0 to 14 are registered.\<close>
theorem unchecked_null_dereference_witness:
  "determine_trigger five_encoders_state 0x8000 = Inr None
   \<and> registered_handles five_encoders_state = [Some 1, Some 2, Some 3, Some 4, Some 5]
   \<and> \<not> pin_matches (heap five_encoders_state 1) 0x8000
   \<and> \<not> pin_matches (heap five_encoders_state 2) 0x8000
   \<and> \<not> pin_matches (heap five_encoders_state 3) 0x8000
   \<and> \<not> pin_matches (heap five_encoders_state 4) 0x8000
   \<and> \<not> pin_matches (heap five_encoders_state 5) 0x8000
   \<and> rot_enc_callback (levels_AB GPIO_PIN_SET GPIO_PIN_RESET) five_encoders_state 0x8000 =
       Inl NullPointerDereference"
proof -
  have regs: "registered_handles five_encoders_state = [Some 1, Some 2, Some 3, Some 4, Some 5]"
    by (simp add: five_encoders_state_def)
  have pins: "\<not> pin_matches (heap five_encoders_state 1) 0x8000"
    "\<not> pin_matches (heap five_encoders_state 2) 0x8000"
    "\<not> pin_matches (heap five_encoders_state 3) 0x8000"
    "\<not> pin_matches (heap five_encoders_state 4) 0x8000"
    "\<not> pin_matches (heap five_encoders_state 5) 0x8000"
    by (simp_all add: five_encoders_state_def pin_matches_def encoders_heap_def encoder_at_def)
  have d: "determine_trigger five_encoders_state 0x8000 = Inr None"
    by (simp add: determine_trigger_def determine_trigger_loop.simps five_encoders_state_def
        MAX_NUM_OF_ENCODERS_def encoders_heap_def encoder_at_def)
  have n: "\<forall>i<MAX_NUM_OF_ENCODERS. \<forall>a. registered_handles five_encoders_state ! i = Some a \<longrightarrow>
          \<not> pin_matches (heap five_encoders_state a) 0x8000"
  proof (intro allI impI)
    fix i a assume "i < MAX_NUM_OF_ENCODERS"
      and a: "registered_handles five_encoders_state ! i = Some a"
    then have "i = 0 \<or> i = 1 \<or> i = 2 \<or> i = 3 \<or> i = 4"
      unfolding MAX_NUM_OF_ENCODERS_def by arith
    then show "\<not> pin_matches (heap five_encoders_state a) 0x8000"
      using a pins by (elim disjE) (auto simp: regs)
  qed
  from unchecked_null_dereference [of five_encoders_state "0x8000"
      "levels_AB GPIO_PIN_SET GPIO_PIN_RESET"] n
  have "rot_enc_callback (levels_AB GPIO_PIN_SET GPIO_PIN_RESET) five_encoders_state 0x8000 =
       Inl NullPointerDereference"
    by blast
  with d regs pins show ?thesis by (intro conjI)
qed

text \<open>
  Claim C1 says that \<^verbatim>\<open>counter_min \<le> counter \<le> counter_max\<close> holds after every event for
  every registered encoder. The button branch copies \<^verbatim>\<open>reset_value\<close> into the counter
  without comparing it with the limits: with limits \<open>0..10\<close>, counter 5 and reset value 20,
  one button event leaves the counter at 20. Nor does the decoder bring a counter that was
  configured outside the limits back inside: starting at 50, a backward step leaves it at 49.
\<close>
theorem reset_value_breaks_limits:
  "within_limits (heap high_reset_state 1)
   \<and> \<not> isl (rot_enc_callback (levels_AB GPIO_PIN_RESET GPIO_PIN_RESET) high_reset_state 4)
   \<and> sint (counter (heap (projr (rot_enc_callback (levels_AB GPIO_PIN_RESET GPIO_PIN_RESET)
          high_reset_state 4)) 1)) = 20
   \<and> sint (counter_max (heap (projr (rot_enc_callback (levels_AB GPIO_PIN_RESET GPIO_PIN_RESET)
          high_reset_state 4)) 1)) = 10
   \<and> \<not> within_limits (heap (projr (rot_enc_callback (levels_AB GPIO_PIN_RESET GPIO_PIN_RESET)
          high_reset_state 4)) 1)
   \<and> \<not> isl (rot_enc_callback (levels_AB GPIO_PIN_RESET GPIO_PIN_SET) high_counter_state 2)
   \<and> sint (counter (heap (projr (rot_enc_callback (levels_AB GPIO_PIN_RESET GPIO_PIN_SET)
          high_counter_state 2)) 1)) = 49
   \<and> \<not> within_limits (heap (projr (rot_enc_callback (levels_AB GPIO_PIN_RESET GPIO_PIN_SET)
          high_counter_state 2)) 1)"
  by (simp add: decoder_defs example_defs within_limits_def word_sle_eq word_sless_alt)

text \<open>
  Claim C1, amended. For every handle whose counter and whose reset value both lie within
  \<^verbatim>\<open>[counter_min, counter_max]\<close> when the events start, the counter lies within the limits
  after every event of every run of events that the callback serves.
\<close>
theorem counter_stays_within_limits:
  assumes "within_limits (heap st a)" and "reset_within_limits (heap st a)"
    and "deliver_events st es = Inr st'" and "n \<le> length es"
  shows "\<exists>st_n. deliver_events st (take n es) = Inr st_n \<and> within_limits (heap st_n a)"
proof -
  from deliver_events_take [OF assms(3), of n]
  obtain st_n where n: "deliver_events st (take n es) = Inr st_n" ..
  from deliver_events_within_limits [OF n assms(1,2)]
  have "within_limits (heap st_n a)" ..
  with n show ?thesis by (intro exI [of _ st_n]) simp
qed

text \<open>A phase edge followed by a button event on one registered encoder.\<close>
theorem counter_stays_within_limits_witness:
  "within_limits (heap (one_encoder_state (encoder_at 0)) 1)
   \<and> reset_within_limits (heap (one_encoder_state (encoder_at 0)) 1)
   \<and> (\<exists>st'. deliver_events (one_encoder_state (encoder_at 0))
          [(levels_AB GPIO_PIN_SET GPIO_PIN_RESET, 1), (levels_AB GPIO_PIN_SET GPIO_PIN_RESET, 4)]
          = Inr st')
   \<and> (1 :: nat) \<le> length
          [(levels_AB GPIO_PIN_SET GPIO_PIN_RESET, 1 :: uint16_t),
           (levels_AB GPIO_PIN_SET GPIO_PIN_RESET, 4)]
   \<and> (\<exists>st_n. deliver_events (one_encoder_state (encoder_at 0))
          (take 1 [(levels_AB GPIO_PIN_SET GPIO_PIN_RESET, 1),
                   (levels_AB GPIO_PIN_SET GPIO_PIN_RESET, 4)]) = Inr st_n
        \<and> within_limits (heap st_n 1))"
proof -
  let ?st = "one_encoder_state (encoder_at 0)"
  let ?es = "[(levels_AB GPIO_PIN_SET GPIO_PIN_RESET, 1 :: uint16_t),
              (levels_AB GPIO_PIN_SET GPIO_PIN_RESET, 4)]"
  have w: "within_limits (heap ?st 1)"
    by (simp add: example_defs within_limits_def word_sle_eq)
  have r: "reset_within_limits (heap ?st 1)"
    by (simp add: example_defs reset_within_limits_def word_sle_eq)
  have "\<not> isl (deliver_events ?st ?es)"
    by (simp add: decoder_defs example_defs word_sless_alt)
  then obtain st' where d: "deliver_events ?st ?es = Inr st'"
    by (cases "deliver_events ?st ?es") simp_all
  have n: "(1 :: nat) \<le> length ?es" by simp
  from counter_stays_within_limits [OF w r d n] w r d n show ?thesis by blast
qed

text \<open>
  Claim C4. Every phase-edge event on a handle stores the newly sampled state in
  \<^verbatim>\<open>old_state\<close>, whatever the table entry and whether or not the counter moved; so after a
  run of one or more phase-edge events on the handle, \<^verbatim>\<open>old_state\<close> is the state sampled
  at the last of them.
\<close>
theorem phase_state_advances:
  assumes "es \<noteq> []"
    and "\<forall>e \<in> set es. determine_trigger st (snd e) = Inr (Some a)
           \<and> snd e \<noteq> button_pin (heap st a)"
    and "old_state (heap st a) < 4"
  shows "\<exists>st'. deliver_events st es = Inr st'
     \<and> old_state (heap st' a) = get_state (fst (last es)) (heap st a)"
  using assms
proof (induction es arbitrary: st)
  case Nil
  then show ?case by simp
next
  case (Cons e es)
  obtain levels GPIO_Pin where e: "e = (levels, GPIO_Pin)" by (cases e)
  from Cons.prems(2) e have dt: "determine_trigger st GPIO_Pin = Inr (Some a)"
    and nb: "GPIO_Pin \<noteq> button_pin (heap st a)" by simp_all
  from rot_enc_callback_phase_edge [OF dt nb Cons.prems(3), of levels]
  obtain st1 where st1: "rot_enc_callback levels st GPIO_Pin = Inr st1"
    and old1: "old_state (heap st1 a) = get_state levels (heap st a)"
    and conf: "configuration (heap st1 a) = configuration (heap st a)"
    by blast
  show ?case
  proof (cases "es = []")
    case True
    with st1 old1 e show ?thesis by simp
  next
    case False
    have "\<forall>e \<in> set es. determine_trigger st1 (snd e) = Inr (Some a)
           \<and> snd e \<noteq> button_pin (heap st1 a)"
    proof
      fix e' assume "e' \<in> set es"
      with Cons.prems(2) have "determine_trigger st (snd e') = Inr (Some a)"
        and "snd e' \<noteq> button_pin (heap st a)" by simp_all
      moreover from conf have "button_pin (heap st1 a) = button_pin (heap st a)"
        by (simp add: configuration_def)
      ultimately show "determine_trigger st1 (snd e') = Inr (Some a)
           \<and> snd e' \<noteq> button_pin (heap st1 a)"
        using determine_trigger_after_callback [OF st1] by simp
    qed
    moreover from old1 have "old_state (heap st1 a) < 4" by (simp add: get_state_less)
    ultimately obtain st' where "deliver_events st1 es = Inr st'"
      and "old_state (heap st' a) = get_state (fst (last es)) (heap st1 a)"
      using Cons.IH [OF False] by blast
    with st1 e False get_state_configuration [OF conf] show ?thesis by simp
  qed
qed

text \<open>
  The counter sits at its upper limit 10; a forward step (code 2) is rejected by the clamp
  and a second edge follows. The phase state ends at 3, the last sample.
\<close>
theorem phase_state_advances_witness:
  "[(levels_AB GPIO_PIN_SET GPIO_PIN_RESET, 1 :: uint16_t),
    (levels_AB GPIO_PIN_SET GPIO_PIN_SET, 2)] \<noteq> []
   \<and> determine_trigger (one_encoder_state ((encoder_at 0)\<lparr>counter := 10\<rparr>)) 1 = Inr (Some 1)
   \<and> determine_trigger (one_encoder_state ((encoder_at 0)\<lparr>counter := 10\<rparr>)) 2 = Inr (Some 1)
   \<and> button_pin (heap (one_encoder_state ((encoder_at 0)\<lparr>counter := 10\<rparr>)) 1) = 4
   \<and> old_state (heap (one_encoder_state ((encoder_at 0)\<lparr>counter := 10\<rparr>)) 1) < 4
   \<and> (\<exists>st'. deliver_events (one_encoder_state ((encoder_at 0)\<lparr>counter := 10\<rparr>))
          [(levels_AB GPIO_PIN_SET GPIO_PIN_RESET, 1), (levels_AB GPIO_PIN_SET GPIO_PIN_SET, 2)]
          = Inr st'
        \<and> old_state (heap st' 1) = 3)"
proof -
  let ?st = "one_encoder_state ((encoder_at 0)\<lparr>counter := 10\<rparr>)"
  let ?es = "[(levels_AB GPIO_PIN_SET GPIO_PIN_RESET, 1 :: uint16_t),
              (levels_AB GPIO_PIN_SET GPIO_PIN_SET, 2)]"
  have ne: "?es \<noteq> []" by simp
  have ph: "\<forall>e \<in> set ?es. determine_trigger ?st (snd e) = Inr (Some 1)
      \<and> snd e \<noteq> button_pin (heap ?st 1)"
    by (simp add: determine_trigger_def determine_trigger_loop.simps MAX_NUM_OF_ENCODERS_def
        example_defs)
  have old: "old_state (heap ?st 1) < 4" by (simp add: example_defs)
  have g: "get_state (fst (last ?es)) (heap ?st 1) = 3"
    by (simp add: get_state_def HAL_GPIO_ReadPin_def example_defs)
  from phase_state_advances [OF ne ph old] obtain st'
    where "deliver_events ?st ?es = Inr st'"
      and "old_state (heap st' 1) = get_state (fst (last ?es)) (heap ?st 1)"
    by blast
  with g have "\<exists>st'. deliver_events ?st ?es = Inr st' \<and> old_state (heap st' 1) = 3"
    by (intro exI [of _ st']) simp
  moreover have "determine_trigger ?st 1 = Inr (Some 1)" "determine_trigger ?st 2 = Inr (Some 1)"
    "button_pin (heap ?st 1) = 4"
    by (simp_all add: determine_trigger_def determine_trigger_loop.simps
        MAX_NUM_OF_ENCODERS_def example_defs)
  ultimately show ?thesis using ne old by (intro conjI)
qed

text \<open>
  Claim C9. With \<^verbatim>\<open>old_state\<close> in \<open>[0,3]\<close>, the sampled state lies in \<open>[0,3]\<close>, the transition
  code indexes the 16-entry table within its bounds, the decode step returns with
  \<^verbatim>\<open>old_state\<close> again in \<open>[0,3]\<close>, and the callback, every run of events and registration
  keep \<^verbatim>\<open>old_state\<close> in \<open>[0,3]\<close>.
\<close>
theorem phase_state_in_range:
  assumes "old_state (heap st a) < 4"
  shows "get_state levels (heap st a) < 4
     \<and> unat (transition_code (old_state (heap st a)) (get_state levels (heap st a)))
         < length rot_enc_lookup_table
     \<and> (\<exists>h'. decode_phase_transition levels (heap st a) = Inr h'
           \<and> old_state h' < 4 \<and> new_state h' < 4)
     \<and> (\<forall>GPIO_Pin st'. rot_enc_callback levels st GPIO_Pin = Inr st' \<longrightarrow>
           old_state (heap st' a) < 4)
     \<and> (\<forall>es st'. deliver_events st es = Inr st' \<longrightarrow> old_state (heap st' a) < 4)
     \<and> old_state (heap (fst (init_rotary_encoder st handle)) a) < 4"
proof -
  have g: "get_state levels (heap st a) < 4" by (rule get_state_less)
  from assms g
  have t: "unat (transition_code (old_state (heap st a)) (get_state levels (heap st a)))
      < length rot_enc_lookup_table"
    by (simp add: transition_code_less length_rot_enc_lookup_table)
  from decode_phase_transition_eq [OF assms, of levels]
  obtain h' where d: "decode_phase_transition levels (heap st a) = Inr h'" by blast
  from decode_phase_transition_Inr(2,3) [OF d] g d
  have s: "\<exists>h'. decode_phase_transition levels (heap st a) = Inr h'
           \<and> old_state h' < 4 \<and> new_state h' < 4"
    by simp
  have c: "\<forall>GPIO_Pin st'. rot_enc_callback levels st GPIO_Pin = Inr st' \<longrightarrow>
           old_state (heap st' a) < 4"
  proof (intro allI impI)
    fix GPIO_Pin st' assume "rot_enc_callback levels st GPIO_Pin = Inr st'"
    then show "old_state (heap st' a) < 4" using assms by (rule rot_enc_callback_old_state)
  qed
  have r: "\<forall>es st'. deliver_events st es = Inr st' \<longrightarrow> old_state (heap st' a) < 4"
  proof (intro allI impI)
    fix es st' assume "deliver_events st es = Inr st'"
    then show "old_state (heap st' a) < 4" using assms by (rule deliver_events_old_state)
  qed
  have i: "old_state (heap (fst (init_rotary_encoder st handle)) a) < 4"
    using assms by (simp add: init_rotary_encoder_def split: prod.splits)
  from g t s c r i show ?thesis by (intro conjI)
qed

text \<open>A zero-initialised encoder (phase state 0) and a phase edge on its pin A.\<close>
theorem phase_state_in_range_witness:
  "old_state (heap (one_encoder_state (encoder_at 0)) 1) < 4
   \<and> get_state (levels_AB GPIO_PIN_SET GPIO_PIN_RESET) (heap (one_encoder_state (encoder_at 0)) 1) < 4
   \<and> unat (transition_code (old_state (heap (one_encoder_state (encoder_at 0)) 1))
        (get_state (levels_AB GPIO_PIN_SET GPIO_PIN_RESET)
           (heap (one_encoder_state (encoder_at 0)) 1))) < length rot_enc_lookup_table
   \<and> (\<exists>st'. rot_enc_callback (levels_AB GPIO_PIN_SET GPIO_PIN_RESET)
          (one_encoder_state (encoder_at 0)) 1 = Inr st'
        \<and> old_state (heap st' 1) < 4)"
proof -
  let ?st = "one_encoder_state (encoder_at 0)"
  let ?L = "levels_AB GPIO_PIN_SET GPIO_PIN_RESET"
  have old: "old_state (heap ?st 1) < 4" by (simp add: example_defs)
  note inst = phase_state_in_range [OF old, of ?L None]
  have "\<not> isl (rot_enc_callback ?L ?st 1)"
    by (simp add: decoder_defs example_defs word_sless_alt)
  then obtain st' where c: "rot_enc_callback ?L ?st 1 = Inr st'"
    by (cases "rot_enc_callback ?L ?st 1") simp_all
  with inst have "old_state (heap st' 1) < 4" by blast
  with c have "\<exists>st'. rot_enc_callback ?L ?st 1 = Inr st' \<and> old_state (heap st' 1) < 4"
    by (intro exI [of _ st']) simp
  with old inst show ?thesis by (intro conjI) simp_all
qed

end
